theory Spec2Isabelle
  imports
    Main
    "HOL-Library.Word"
    "HOL-Library.Signed_Division"
    "HOL-Library.Char_ord"
    "HOL-Library.List_Lexorder"
begin

unbundle bit_operations_syntax

section \<open>Common Go notions\<close>

text \<open>
  A Go call either returns a value, returns an error, panics at run time
  (slice bounds out of range, integer division by zero) or never returns.
  All four are results of the model. Go's \<open>int\<close> is taken to be 64 bits
  wide (amd64, arm64); \<open>int64\<close> values are \<open>64 word\<close>s read with \<open>sint\<close>,
  and a \<open>byte\<close> is an \<open>8 word\<close>. A Go \<open>string\<close> is a sequence of bytes,
  which is what an Isabelle \<open>string\<close> (a list of 8-bit \<open>char\<close>s) is.
\<close>

datatype ('e, 'a) outcome = Ok 'a | Err 'e | Panic | Diverges

type_synonym byte = "8 word"
type_synonym int64 = "64 word"

definition byte_of_char :: "char \<Rightarrow> byte" where
  "byte_of_char c = of_char c"

text \<open>Signed 64-bit wrap-around of a mathematical integer (Go's overflow rule).\<close>

definition wrap64 :: "int \<Rightarrow> int" where
  "wrap64 x = (x + 2 ^ 63) mod 2 ^ 64 - 2 ^ 63"

text \<open>Go's \<open>%\<close> on \<open>int64\<close>: the remainder of truncated division, with the
  sign of the dividend. The divisor is non-zero where this is used.\<close>

definition go_rem :: "int64 \<Rightarrow> int64 \<Rightarrow> int64" where
  "go_rem a b = word_of_int (sint a smod sint b)"

section \<open>Package strconv, as far as the bencode codec uses it\<close>

text \<open>
  The codec calls \<open>strconv.Atoi\<close>, \<open>strconv.ParseInt(s, 10, 64)\<close>,
  \<open>strconv.Itoa\<close> and \<open>strconv.FormatInt(i, 10)\<close> of the Go standard
  library. They are written out here as Go defines them for base 10: an
  optional sign \<open>+\<close> or \<open>-\<close>, then at least one decimal digit; a
  syntax error for anything else, a range error when the value does not fit.
  \<open>ParseUint\<close> reports the range error at the digit where the value
  overflows, before it looks at the bytes after it.
\<close>

datatype numerr = ErrSyntax | ErrRange

definition is_digit :: "char \<Rightarrow> bool" where
  "is_digit c \<longleftrightarrow> c \<in> set ''0123456789''"

definition digit_val :: "char \<Rightarrow> nat" where
  "digit_val c = of_char c - 48"

text \<open>The digit for a value below ten, read from the digit table.\<close>

definition digit_char :: "nat \<Rightarrow> char" where
  "digit_char d = ''0123456789'' ! d"

definition maxUint64 :: nat where
  "maxUint64 = 2 ^ 64 - 1"

fun ParseUint_loop :: "string \<Rightarrow> nat \<Rightarrow> numerr + nat" where
  "ParseUint_loop [] n = Inr n"
| "ParseUint_loop (c # cs) n =
     (if \<not> is_digit c then Inl ErrSyntax
      else if n * 10 + digit_val c > maxUint64 then Inl ErrRange
      else ParseUint_loop cs (n * 10 + digit_val c))"

definition ParseUint :: "string \<Rightarrow> numerr + nat" where
  "ParseUint s = (if s = [] then Inl ErrSyntax else ParseUint_loop s 0)"

definition ParseInt :: "string \<Rightarrow> numerr + int" where
  "ParseInt s =
     (if s = [] then Inl ErrSyntax
      else let neg = (hd s = CHR ''-'');
               s' = (if hd s = CHR ''+'' \<or> hd s = CHR ''-'' then tl s else s)
           in case ParseUint s' of
                Inl e \<Rightarrow> Inl e
              | Inr un \<Rightarrow>
                  if \<not> neg \<and> un \<ge> 2 ^ 63 then Inl ErrRange
                  else if neg \<and> un > 2 ^ 63 then Inl ErrRange
                  else Inr (if neg then - int un else int un))"

text \<open>With a 64-bit \<open>int\<close>, \<open>Atoi\<close> accepts and returns what
  \<open>ParseInt(s, 10, 64)\<close> does.\<close>

definition Atoi :: "string \<Rightarrow> numerr + int" where
  "Atoi s = ParseInt s"

text \<open>The decimal digits of a natural number, most significant first.\<close>

fun dec_digits :: "nat \<Rightarrow> string" where
  "dec_digits n =
     (if n < 10 then [digit_char n] else dec_digits (n div 10) @ [digit_char (n mod 10)])"

declare dec_digits.simps [simp del]

definition FormatInt :: "int \<Rightarrow> string" where
  "FormatInt i = (if i < 0 then CHR ''-'' # dec_digits (nat (- i)) else dec_digits (nat i))"

definition Itoa :: "nat \<Rightarrow> string" where
  "Itoa n = FormatInt (int n)"

section \<open>Package bencode: values and errors\<close>

text \<open>
  The codec works on Go's \<open>interface{}\<close>. \<open>bvalue\<close> has one constructor
  for each dynamic type that \<open>encodeValue\<close> tells apart: \<open>string\<close>,
  \<open>int64\<close>, \<open>[]interface{}\<close>, \<open>map[string]interface{}\<close>, \<open>int\<close>,
  \<open>[]string\<close>, and \<open>Unsupported\<close> for every other type. The decoder
  produces the first four only.

  A Go map has unique keys and no order. It is represented by the association
  list of its entries in ascending key order (bytewise lexicographic, the
  order of \<open>sort.Strings\<close>), so that equal maps are equal lists.
  \<open>dict_set\<close> is the assignment \<open>m[k] = v\<close> on this representation.
\<close>

datatype bvalue =
    BString string
  | BInt64 int64
  | BList "bvalue list"
  | BDict "(string \<times> bvalue) list"
  | GoInt int64
  | StringSlice "string list"
  | Unsupported

text \<open>
  One constructor for each error message of the package. The two
  \<open>MalformedString\<close> errors are \<open>no colon found\<close> and a length prefix
  that \<open>Atoi\<close> rejects; \<open>InvalidDigits\<close> is \<open>invalid integer: ...\<close>
  and carries the \<open>strconv\<close> error it wraps.
\<close>

datatype bencode_error =
    EmptyInput
  | UnknownType char
  | MalformedString_NoColon
  | MalformedString_Length numerr
  | TruncatedString
  | InvalidIntegerFormat
  | UnterminatedInteger
  | LeadingZero
  | NegativeZero
  | InvalidDigits numerr
  | InvalidListFormat
  | UnterminatedList
  | ListItemError bencode_error
  | DictionaryKeyError bencode_error
  | InvalidDictionaryFormat
  | NonStringKey
  | UnterminatedDictionary
  | DictionaryValueError bencode_error
  | UnsupportedType

fun dict_set :: "string \<Rightarrow> 'v \<Rightarrow> (string \<times> 'v) list \<Rightarrow> (string \<times> 'v) list" where
  "dict_set k v [] = [(k, v)]"
| "dict_set k v ((k', v') # m) =
     (if k < k' then (k, v) # (k', v') # m
      else if k = k' then (k, v) # m
      else (k', v') # dict_set k v m)"

section \<open>Package bencode: the decoder (decoder.go)\<close>

text \<open>
  \<open>decodeString\<close>. The scan for the colon is \<open>takeWhile\<close>. The bound
  check \<open>i+1+length > len(data)\<close> is computed in 64-bit \<open>int\<close>s and wraps
  around; when the wrapped sum is below \<open>i+1\<close> the check passes and the
  slice expression \<open>data[i+1 : i+1+length]\<close> panics.
\<close>

definition decodeString :: "string \<Rightarrow> (bencode_error, string \<times> nat) outcome" where
  "decodeString data =
     (let i = length (takeWhile (\<lambda>c. c \<noteq> CHR '':'') data)
      in if i \<ge> length data then Err MalformedString_NoColon
         else case Atoi (take i data) of
                Inl e \<Rightarrow> Err (MalformedString_Length e)
              | Inr len \<Rightarrow>
                  let hi = wrap64 (int i + 1 + len)
                  in if hi > int (length data) then Err TruncatedString
                     else if hi < int i + 1 then Panic
                     else Ok (take (nat hi - (i + 1)) (drop (i + 1) data), nat hi))"

text \<open>\<open>decodeInteger\<close>. The scan for \<open>e\<close> starts at index 1.\<close>

definition decodeInteger :: "string \<Rightarrow> (bencode_error, int64 \<times> nat) outcome" where
  "decodeInteger data =
     (if length data < 2 \<or> hd data \<noteq> CHR ''i'' then Err InvalidIntegerFormat
      else let endIndex = 1 + length (takeWhile (\<lambda>c. c \<noteq> CHR ''e'') (drop 1 data))
           in if endIndex \<ge> length data then Err UnterminatedInteger
              else let numStr = take (endIndex - 1) (drop 1 data)
                   in if length numStr > 1 \<and> numStr ! 0 = CHR ''0'' then Err LeadingZero
                      else if length numStr > 1 \<and> numStr ! 0 = CHR ''-'' \<and> numStr ! 1 = CHR ''0''
                           then Err NegativeZero
                      else case ParseInt numStr of
                             Inl e \<Rightarrow> Err (InvalidDigits e)
                           | Inr num \<Rightarrow> Ok (word_of_int num, endIndex + 1))"

text \<open>\<open>Decode\<close> returns the result of the typed decoder as an
  \<open>interface{}\<close>: \<open>boxed\<close> wraps the value and passes everything else on.\<close>

fun boxed :: "('a \<Rightarrow> bvalue) \<Rightarrow> (bencode_error, 'a \<times> nat) outcome
    \<Rightarrow> (bencode_error, bvalue \<times> nat) outcome" where
  "boxed f (Ok (x, n)) = Ok (f x, n)"
| "boxed f (Err e) = Err e"
| "boxed f Panic = Panic"
| "boxed f Diverges = Diverges"

text \<open>
  Modelled from the spec: the dictionary branch of \<open>Decode\<close> (first byte
  \<open>d\<close>) and \<open>decodeDictionary\<close> with its loop. The decoder under the
  sources stops at lists; the dictionary decoder is known from its tests
  (the dictionary cases of \<open>TestDecode\<close>) and from its callers
  (\<open>torrent.Parse\<close>, \<open>parseTrackerResponse\<close>). It follows the spec:
  the format is \<open>d(key value)*e\<close>; the key is decoded with \<open>Decode\<close>
  and must be a string (\<open>NonStringKey\<close>); a missing terminator is
  \<open>UnterminatedDictionary\<close>; a failure in a value is wrapped
  (\<open>DictionaryValueError\<close>); a later duplicate key overwrites the earlier
  one. The tests add that a failure in a key is wrapped too
  (\<open>error decoding dictionary key: ...\<close>). The entry guard is the one of
  the sibling \<open>decodeList\<close>.

  The other equations are the source: \<open>Decode\<close> for digits, \<open>i\<close> and
  \<open>l\<close>, \<open>decodeList\<close> and its loop.

  In both loops an item that decodes without error but consumes no byte would
  leave the position where it is, and the loop would run forever: that is the
  result \<open>Diverges\<close>. Lemma \<open>Decode_consumed\<close> below shows that it never
  happens.
\<close>

function Decode :: "string \<Rightarrow> (bencode_error, bvalue \<times> nat) outcome"
  and decodeList :: "string \<Rightarrow> (bencode_error, bvalue list \<times> nat) outcome"
  and decodeList_loop :: "string \<Rightarrow> nat \<Rightarrow> bvalue list \<Rightarrow> (bencode_error, bvalue list \<times> nat) outcome"
  and decodeDictionary :: "string \<Rightarrow> (bencode_error, (string \<times> bvalue) list \<times> nat) outcome"
  and decodeDictionary_loop :: "string \<Rightarrow> nat \<Rightarrow> (string \<times> bvalue) list
         \<Rightarrow> (bencode_error, (string \<times> bvalue) list \<times> nat) outcome"
where
  "Decode data =
     (if data = [] then Err EmptyInput
      else if is_digit (hd data) then boxed BString (decodeString data)
      else if hd data = CHR ''i'' then boxed BInt64 (decodeInteger data)
      else if hd data = CHR ''l'' then boxed BList (decodeList data)
      else if hd data = CHR ''d'' then boxed BDict (decodeDictionary data)
      else Err (UnknownType (hd data)))"
| "decodeList data =
     (if length data < 2 \<or> hd data \<noteq> CHR ''l'' then Err InvalidListFormat
      else decodeList_loop data 1 [])"
| "decodeList_loop data pos result =
     (if pos < length data \<and> data ! pos \<noteq> CHR ''e'' then
        (case Decode (drop pos data) of
           Err e \<Rightarrow> Err (ListItemError e)
         | Panic \<Rightarrow> Panic
         | Diverges \<Rightarrow> Diverges
         | Ok (item, bytesRead) \<Rightarrow>
             if bytesRead = 0 then Diverges
             else decodeList_loop data (pos + bytesRead) (result @ [item]))
      else if pos \<ge> length data then Err UnterminatedList
      else Ok (result, pos + 1))"
| "decodeDictionary data =
     (if length data < 2 \<or> hd data \<noteq> CHR ''d'' then Err InvalidDictionaryFormat
      else decodeDictionary_loop data 1 [])"
| "decodeDictionary_loop data pos result =
     (if pos < length data \<and> data ! pos \<noteq> CHR ''e'' then
        (case Decode (drop pos data) of
           Err e \<Rightarrow> Err (DictionaryKeyError e)
         | Panic \<Rightarrow> Panic
         | Diverges \<Rightarrow> Diverges
         | Ok (key, keyRead) \<Rightarrow>
            (case key of
               BString keyStr \<Rightarrow>
                 (case Decode (drop (pos + keyRead) data) of
                    Err e \<Rightarrow> Err (DictionaryValueError e)
                  | Panic \<Rightarrow> Panic
                  | Diverges \<Rightarrow> Diverges
                  | Ok (val, valRead) \<Rightarrow>
                      if keyRead + valRead = 0 then Diverges
                      else decodeDictionary_loop data (pos + keyRead + valRead)
                             (dict_set keyStr val result))
             | _ \<Rightarrow> Err NonStringKey))
      else if pos \<ge> length data then Err UnterminatedDictionary
      else Ok (result, pos + 1))"
  by pat_completeness auto
termination
  by (relation "measure (\<lambda>x. case x of
          Inl (Inl data) \<Rightarrow> 3 * length data + 2
        | Inl (Inr data) \<Rightarrow> 3 * length data + 1
        | Inr (Inl (data, pos, result)) \<Rightarrow> 3 * (length data - pos) + 3
        | Inr (Inr (Inl data)) \<Rightarrow> 3 * length data + 1
        | Inr (Inr (Inr (data, pos, result))) \<Rightarrow> 3 * (length data - pos) + 3)")
     auto

declare Decode.simps [simp del] decodeList.simps [simp del] decodeList_loop.simps [simp del]
  decodeDictionary.simps [simp del] decodeDictionary_loop.simps [simp del]

section \<open>Package bencode: the encoder (encoder.go)\<close>

lemma size_list_insort_key:
  "size_list f (insort_key g x xs) = size_list f (x # xs)"
  by (induction xs) auto

lemma size_list_sort_key: "size_list f (sort_key g xs) = size_list f xs"
  by (induction xs) (auto simp: size_list_insort_key)

text \<open>
  The encoder appends to a \<open>bytes.Buffer\<close>; the buffer is passed along and
  returned. \<open>EncodeDict\<close> sorts the keys and encodes \<open>dict[key]\<close> for each
  of them: with unique keys that is the list of entries sorted by key.
\<close>

function encodeValue :: "string \<Rightarrow> bvalue \<Rightarrow> bencode_error + string"
  and encodeItems :: "string \<Rightarrow> bvalue list \<Rightarrow> bencode_error + string"
  and EncodeDict :: "(string \<times> bvalue) list \<Rightarrow> bencode_error + string"
  and encodePairs :: "string \<Rightarrow> (string \<times> bvalue) list \<Rightarrow> bencode_error + string"
where
  "encodeValue buf (BString v) = Inr (buf @ Itoa (length v) @ '':'' @ v)"
| "encodeValue buf (GoInt v) = Inr (buf @ ''i'' @ FormatInt (sint v) @ ''e'')"
| "encodeValue buf (BInt64 v) = Inr (buf @ ''i'' @ FormatInt (sint v) @ ''e'')"
| "encodeValue buf (BList v) =
     (case encodeItems (buf @ ''l'') v of
        Inl err \<Rightarrow> Inl err
      | Inr buf' \<Rightarrow> Inr (buf' @ ''e''))"
| "encodeValue buf (BDict v) =
     (case EncodeDict v of
        Inl err \<Rightarrow> Inl err
      | Inr dictBytes \<Rightarrow> Inr (buf @ dictBytes))"
| "encodeValue buf (StringSlice v) =
     Inr (buf @ ''l'' @ concat (map (\<lambda>item. Itoa (length item) @ '':'' @ item) v) @ ''e'')"
| "encodeValue buf Unsupported = Inl UnsupportedType"
| "encodeItems buf [] = Inr buf"
| "encodeItems buf (item # rest) =
     (case encodeValue buf item of
        Inl err \<Rightarrow> Inl err
      | Inr buf' \<Rightarrow> encodeItems buf' rest)"
| "EncodeDict dict =
     (case encodePairs ''d'' (sort_key fst dict) of
        Inl err \<Rightarrow> Inl err
      | Inr buf \<Rightarrow> Inr (buf @ ''e''))"
| "encodePairs buf [] = Inr buf"
| "encodePairs buf ((key, val) # rest) =
     (case encodeValue (buf @ Itoa (length key) @ '':'' @ key) val of
        Inl err \<Rightarrow> Inl err
      | Inr buf' \<Rightarrow> encodePairs buf' rest)"
  by pat_completeness auto
termination
  by (relation "measure (\<lambda>x. case x of
          Inl (Inl (buf, v)) \<Rightarrow> 2 * size v
        | Inl (Inr (buf, vs)) \<Rightarrow> 2 * size_list size vs
        | Inr (Inl d) \<Rightarrow> 2 * size_list (size_prod (\<lambda>_. 0) size) d + 1
        | Inr (Inr (buf, ps)) \<Rightarrow> 2 * size_list (size_prod (\<lambda>_. 0) size) ps)")
     (auto simp: size_list_sort_key)

declare EncodeDict.simps [simp del]

section \<open>Package bencode: the values of the round trip\<close>

text \<open>
  The supported value types of the round trip: strings, 64-bit integers, and
  lists and dictionaries of those. A dictionary is a Go map, so its entries
  are in ascending key order without duplicates.
\<close>

fun supported :: "bvalue \<Rightarrow> bool" where
  "supported (BString s) = True"
| "supported (BInt64 i) = True"
| "supported (BList vs) = (\<forall>v \<in> set vs. supported v)"
| "supported (BDict d) = (sorted_wrt (<) (map fst d) \<and> (\<forall>kv \<in> set d. supported (snd kv)))"
| "supported (GoInt i) = False"
| "supported (StringSlice ss) = False"
| "supported Unsupported = False"

text \<open>\<open>enc_dec_ok v bs\<close>: the encoder appends \<open>bs\<close> for \<open>v\<close> to any
  buffer, \<open>bs\<close> does not start with the terminator \<open>e\<close>, and \<open>Decode\<close>
  reads \<open>v\<close> back from \<open>bs\<close> followed by anything, consuming exactly
  \<open>bs\<close>.\<close>

definition enc_dec_ok :: "bvalue \<Rightarrow> string \<Rightarrow> bool" where
  "enc_dec_ok v bs \<longleftrightarrow>
     (\<forall>buf. encodeValue buf v = Inr (buf @ bs)) \<and> bs \<noteq> [] \<and> hd bs \<noteq> CHR ''e''
     \<and> (\<forall>rest. length (bs @ rest) < 2 ^ 63 \<longrightarrow> Decode (bs @ rest) = Ok (v, length bs))"

text \<open>A decimal number as \<open>strconv\<close> reads it: an optional sign \<open>+\<close> or
  \<open>-\<close>, then at least one digit and nothing else.\<close>

definition valid_decimal :: "string \<Rightarrow> bool" where
  "valid_decimal s \<longleftrightarrow>
     (let ds = (if s \<noteq> [] \<and> (hd s = CHR ''+'' \<or> hd s = CHR ''-'') then tl s else s)
      in ds \<noteq> [] \<and> (\<forall>c \<in> set ds. is_digit c))"

section \<open>Package peer: the handshake (handshake.go)\<close>

definition ProtocolIdentifier :: string where
  "ProtocolIdentifier = ''BitTorrent protocol''"

definition HandshakeLength :: nat where
  "HandshakeLength = 68"

text \<open>\<open>Reserved\<close>, \<open>InfoHash\<close> and \<open>PeerID\<close> are Go arrays of 8, 20 and 20
  bytes; \<open>handshake_wf\<close> states these lengths.\<close>

record Handshake =
  Pstr :: string
  Reserved :: "byte list"
  InfoHash :: "byte list"
  PeerID :: "byte list"

definition handshake_wf :: "Handshake \<Rightarrow> bool" where
  "handshake_wf h \<longleftrightarrow>
     length (Reserved h) = 8 \<and> length (InfoHash h) = 20 \<and> length (PeerID h) = 20"

text \<open>Go's \<open>copy(buf[off:], src)\<close>: slicing panics when \<open>off\<close> exceeds the
  length of \<open>buf\<close> (here also its capacity); otherwise as many elements are
  copied as fit. \<open>None\<close> is the panic.\<close>

definition copy_at :: "'a list \<Rightarrow> nat \<Rightarrow> 'a list \<Rightarrow> 'a list option" where
  "copy_at buf off src =
     (if off > length buf then None
      else let n = min (length buf - off) (length src)
           in Some (take off buf @ take n src @ drop (off + n) buf))"

definition Serialize :: "Handshake \<Rightarrow> (unit, byte list) outcome" where
  "Serialize h =
     (let buf = replicate HandshakeLength (0 :: byte);
          buf = buf[0 := of_nat (length (Pstr h))]
      in case copy_at buf 1 (map byte_of_char (Pstr h)) of
           None \<Rightarrow> Panic
         | Some buf \<Rightarrow>
        (case copy_at buf (1 + length (Pstr h)) (Reserved h) of
           None \<Rightarrow> Panic
         | Some buf \<Rightarrow>
        (case copy_at buf (1 + length (Pstr h) + 8) (InfoHash h) of
           None \<Rightarrow> Panic
         | Some buf \<Rightarrow>
        (case copy_at buf (1 + length (Pstr h) + 8 + 20) (PeerID h) of
           None \<Rightarrow> Panic
         | Some buf \<Rightarrow> Ok buf))))"

definition NewHandshake :: "byte list \<Rightarrow> byte list \<Rightarrow> Handshake" where
  "NewHandshake infoHash peerID =
     \<lparr>Pstr = ProtocolIdentifier, Reserved = replicate 8 0,
      InfoHash = infoHash, PeerID = peerID\<rparr>"

text \<open>\<open>ExtensionBit\<close> is a \<open>uint8\<close>.\<close>

definition ExtensionDHT :: byte where "ExtensionDHT = 0"
definition ExtensionExtensions :: byte where "ExtensionExtensions = 5"
definition ExtensionFast :: byte where "ExtensionFast = 7"

definition SetExtension :: "Handshake \<Rightarrow> byte \<Rightarrow> Handshake" where
  "SetExtension h ext =
     (if ext = ExtensionDHT then
        h\<lparr>Reserved := (Reserved h)[7 := (Reserved h ! 7) OR 1]\<rparr>
      else if ext = ExtensionExtensions then
        h\<lparr>Reserved := (Reserved h)[5 := (Reserved h ! 5) OR 32]\<rparr>
      else if ext = ExtensionFast then
        h\<lparr>Reserved := (Reserved h)[7 := (Reserved h ! 7) OR 128]\<rparr>
      else h)"

definition HasExtension :: "Handshake \<Rightarrow> byte \<Rightarrow> bool" where
  "HasExtension h ext =
     (if ext = ExtensionDHT then (Reserved h ! 7) AND 1 \<noteq> 0
      else if ext = ExtensionExtensions then (Reserved h ! 5) AND 32 \<noteq> 0
      else if ext = ExtensionFast then (Reserved h ! 7) AND 128 \<noteq> 0
      else False)"

section \<open>Package tracker: the compact peer list (tracker.go)\<close>

text \<open>\<open>net.IPv4(a, b, c, d)\<close> is the 16-byte form of the address a.b.c.d:
  the IPv4-in-IPv6 prefix followed by the four bytes.\<close>

definition IPv4 :: "byte \<Rightarrow> byte \<Rightarrow> byte \<Rightarrow> byte \<Rightarrow> byte list" where
  "IPv4 a b c d = [0, 0, 0, 0, 0, 0, 0, 0, 0, 0, 0xff, 0xff, a, b, c, d]"

text \<open>\<open>binary.BigEndian.Uint16\<close> of a two-byte slice.\<close>

definition BigEndian_Uint16 :: "byte \<Rightarrow> byte \<Rightarrow> 16 word" where
  "BigEndian_Uint16 hi lo = (push_bit 8 (ucast hi)) OR ucast lo"

record Peer =
  IP :: "byte list"
  Port :: "16 word"

datatype tracker_error = InvalidPeerListLength nat

text \<open>The loop \<open>for i := 0; i < len(peerData); i += 6\<close>. An index beyond the
  data would panic; the length check before the loop excludes it.\<close>

function parsePeers_loop :: "byte list \<Rightarrow> nat \<Rightarrow> Peer list \<Rightarrow> (tracker_error, Peer list) outcome" where
  "parsePeers_loop peerData i peers =
     (if i < length peerData then
        (if i + 5 < length peerData then
           parsePeers_loop peerData (i + 6)
             (peers @ [\<lparr>IP = IPv4 (peerData ! i) (peerData ! (i + 1))
                                (peerData ! (i + 2)) (peerData ! (i + 3)),
                        Port = BigEndian_Uint16 (peerData ! (i + 4)) (peerData ! (i + 5))\<rparr>])
         else Panic)
      else Ok peers)"
  by pat_completeness auto
termination
  by (relation "measure (\<lambda>(peerData, i, peers). length peerData - i)") auto

declare parsePeers_loop.simps [simp del]

definition parsePeers :: "byte list \<Rightarrow> (tracker_error, Peer list) outcome" where
  "parsePeers peerData =
     (if length peerData mod 6 \<noteq> 0 then Err (InvalidPeerListLength (length peerData))
      else parsePeers_loop peerData 0 [])"

section \<open>Package torrent: the metadata model (torrent.go)\<close>

record FileInfo =
  File_Length :: int64
  File_Path :: "string list"

record TorrentInfo =
  Info_PieceLength :: int64
  Info_Pieces :: string
  Info_Name :: string
  Info_Length :: int64
  Info_Files :: "FileInfo list"
  Info_Private :: int64

record TorrentFile =
  Announce :: string
  AnnounceList :: "string list list"
  CreationDate :: int64
  Comment :: string
  CreatedBy :: string
  Encoding :: string
  Info :: TorrentInfo

datatype torrent_error = CorruptPieceList | PieceIndexOutOfRange int nat

text \<open>The index argument is a Go \<open>int\<close>. Nothing is added to it before it
  has been compared with the number of pieces, so it cannot overflow and is
  modelled as a mathematical integer.\<close>

definition PieceHash :: "TorrentFile \<Rightarrow> int \<Rightarrow> (torrent_error, byte list) outcome" where
  "PieceHash t index =
     (if length (Info_Pieces (Info t)) mod 20 \<noteq> 0 then Err CorruptPieceList
      else let numPieces = length (Info_Pieces (Info t)) div 20
           in if index < 0 \<or> index \<ge> int numPieces
              then Err (PieceIndexOutOfRange index numPieces)
              else Ok (map byte_of_char
                        (take 20 (drop (nat index * 20) (Info_Pieces (Info t))))))"

definition NumPieces :: "TorrentFile \<Rightarrow> nat" where
  "NumPieces t = length (Info_Pieces (Info t)) div 20"

text \<open>The sum of the file lengths is an \<open>int64\<close> sum and wraps around.\<close>

definition TotalLength :: "TorrentFile \<Rightarrow> int64" where
  "TotalLength t =
     (if 0 <s Info_Length (Info t) then Info_Length (Info t)
      else foldl (\<lambda>totalLength file. totalLength + File_Length file) 0 (Info_Files (Info t)))"

text \<open>\<open>%\<close> panics on a zero divisor.\<close>

definition PieceLength :: "TorrentFile \<Rightarrow> int \<Rightarrow> (unit, int64) outcome" where
  "PieceLength t index =
     (if index < 0 \<or> index \<ge> int (NumPieces t) then Ok 0
      else if index = int (NumPieces t) - 1 then
        (let totalLength = TotalLength t
         in if Info_PieceLength (Info t) = 0 then Panic
            else if go_rem totalLength (Info_PieceLength (Info t)) = 0
                 then Ok (Info_PieceLength (Info t))
                 else Ok (go_rem totalLength (Info_PieceLength (Info t))))
      else Ok (Info_PieceLength (Info t)))"

text \<open>A single-file torrent with piece length 4, used to instantiate the theorems below.\<close>

definition example_torrent :: "string \<Rightarrow> int64 \<Rightarrow> TorrentFile" where
  "example_torrent pieces len =
     \<lparr>Announce = ''http://t/a'', AnnounceList = [], CreationDate = 0, Comment = [],
      CreatedBy = [], Encoding = [],
      Info = \<lparr>Info_PieceLength = 4, Info_Pieces = pieces, Info_Name = ''f'',
              Info_Length = len, Info_Files = [], Info_Private = 0\<rparr>\<rparr>"

text \<open>A multi-file torrent with one piece and a single file entry of length -1,
  as \<open>Parse\<close> accepts it (it checks the type of a file length, not its sign).\<close>

definition negative_length_torrent :: TorrentFile where
  "negative_length_torrent =
     (example_torrent ''aaaaaaaaaaaaaaaaaaaa'' 0)
       \<lparr>Info := (Info (example_torrent ''aaaaaaaaaaaaaaaaaaaa'' 0))
                 \<lparr>Info_Files := [\<lparr>File_Length = - 1, File_Path = [''f'']\<rparr>]\<rparr>\<rparr>"

section \<open>Package torrent: the info-hash (torrent.go)\<close>


text \<open>The map literal built for each file, and the map \<open>infoDict\<close> that
  \<open>InfoHash\<close> builds: a literal with three entries, then the assignments.\<close>

definition fileDict :: "FileInfo \<Rightarrow> (string \<times> bvalue) list" where
  "fileDict file =
     dict_set ''path'' (StringSlice (File_Path file))
       (dict_set ''length'' (BInt64 (File_Length file)) [])"









section \<open>Properties of strconv\<close>

lemma digit_char_cases:
  assumes "(d::nat) < 10"
  obtains "d = 0" | "d = 1" | "d = 2" | "d = 3" | "d = 4" | "d = 5" | "d = 6" | "d = 7" | "d = 8" | "d = 9"
proof -
  from assms have "d = 0 \<or> d = 1 \<or> d = 2 \<or> d = 3 \<or> d = 4 \<or> d = 5 \<or> d = 6 \<or> d = 7 \<or> d = 8 \<or> d = 9"
    by arith
  then show thesis using that by blast
qed

lemma digit_char_props:
  assumes "d < 10"
  shows "is_digit (digit_char d)" and "digit_val (digit_char d) = d"
  using assms by (cases d rule: digit_char_cases; simp add: digit_char_def is_digit_def digit_val_def)+

lemma digit_char_zero: "d < 10 \<Longrightarrow> digit_char d = CHR ''0'' \<longleftrightarrow> d = 0"
  by (cases d rule: digit_char_cases; simp add: digit_char_def)

lemma is_digit_not_special:
  "is_digit c \<Longrightarrow> c \<noteq> CHR '':'' \<and> c \<noteq> CHR ''e'' \<and> c \<noteq> CHR ''-'' \<and> c \<noteq> CHR ''+''
     \<and> c \<noteq> CHR ''i'' \<and> c \<noteq> CHR ''l'' \<and> c \<noteq> CHR ''d''"
  by (auto simp: is_digit_def)

lemma dec_digits_nonempty: "dec_digits n \<noteq> []"
  by (subst dec_digits.simps) simp

lemma dec_digits_all_digits: "c \<in> set (dec_digits n) \<Longrightarrow> is_digit c"
proof (induction n arbitrary: c rule: dec_digits.induct)
  case (1 n)
  then show ?case
    by (subst (asm) (2) dec_digits.simps) (auto simp: digit_char_props split: if_splits)
qed

lemma ParseUint_loop_append:
  "ParseUint_loop (xs @ ys) acc =
     (case ParseUint_loop xs acc of Inl e \<Rightarrow> Inl e | Inr m \<Rightarrow> ParseUint_loop ys m)"
  by (induction xs arbitrary: acc) auto

lemma ParseUint_loop_dec_digits:
  "n \<le> maxUint64 \<Longrightarrow> ParseUint_loop (dec_digits n) 0 = Inr n"
proof (induction n rule: dec_digits.induct)
  case (1 n)
  show ?case
  proof (cases "n < 10")
    case True
    then show ?thesis using "1.prems"
      by (subst dec_digits.simps) (simp add: digit_char_props)
  next
    case False
    have le: "n div 10 \<le> maxUint64" using "1.prems" by simp
    have d: "n mod 10 < 10" by simp
    have recomb: "n div 10 * 10 + n mod 10 = n" by simp
    show ?thesis
      using False "1.IH" [OF False le] "1.prems"
      by (subst dec_digits.simps)
         (simp add: ParseUint_loop_append digit_char_props [OF d] recomb)
  qed
qed

lemma dec_digits_hd_nonzero: "0 < n \<Longrightarrow> hd (dec_digits n) \<noteq> CHR ''0''"
proof (induction n rule: dec_digits.induct)
  case (1 n)
  show ?case
  proof (cases "n < 10")
    case True
    then show ?thesis using "1.prems"
      by (subst dec_digits.simps) (simp add: digit_char_zero)
  next
    case False
    then have "0 < n div 10" by simp
    from "1.IH" [OF False this] False show ?thesis
      by (subst dec_digits.simps) (simp add: dec_digits_nonempty)
  qed
qed

lemma dec_digits_zero: "dec_digits 0 = ''0''"
  by (subst dec_digits.simps) (simp add: digit_char_def)

lemma ParseUint_dec_digits: "n \<le> maxUint64 \<Longrightarrow> ParseUint (dec_digits n) = Inr n"
  by (simp add: ParseUint_def dec_digits_nonempty ParseUint_loop_dec_digits)

lemma hd_dec_digits_digit: "is_digit (hd (dec_digits n))"
  using dec_digits_all_digits [of "hd (dec_digits n)" n] dec_digits_nonempty [of n] by simp

lemma ParseInt_FormatInt:
  assumes "- (2 ^ 63) \<le> i" "i < 2 ^ 63"
  shows "ParseInt (FormatInt i) = Inr i"
proof (cases "i < 0")
  case True
  have "nat (- i) \<le> maxUint64" using assms by (simp add: maxUint64_def)
  then have "ParseUint (dec_digits (nat (- i))) = Inr (nat (- i))"
    by (rule ParseUint_dec_digits)
  moreover have "nat (- i) \<le> 2 ^ 63" using assms True by simp
  ultimately show ?thesis using True
    by (simp add: ParseInt_def FormatInt_def Let_def)
next
  case False
  have "nat i \<le> maxUint64" using assms by (simp add: maxUint64_def)
  then have "ParseUint (dec_digits (nat i)) = Inr (nat i)"
    by (rule ParseUint_dec_digits)
  moreover have "nat i < 2 ^ 63" using assms False by simp
  moreover have "hd (dec_digits (nat i)) \<noteq> CHR ''-''" "hd (dec_digits (nat i)) \<noteq> CHR ''+''"
    using hd_dec_digits_digit [of "nat i"] is_digit_not_special by blast+
  ultimately show ?thesis using False
    by (simp add: ParseInt_def FormatInt_def Let_def dec_digits_nonempty)
qed

lemma wrap64_id: "- (2 ^ 63) \<le> x \<Longrightarrow> x < 2 ^ 63 \<Longrightarrow> wrap64 x = x"
  by (simp add: wrap64_def)

lemma Itoa_dec_digits: "Itoa n = dec_digits n"
  by (simp add: Itoa_def FormatInt_def)

lemma takeWhile_until:
  "\<forall>y \<in> set xs. P y \<Longrightarrow> \<not> P x \<Longrightarrow> takeWhile P (xs @ x # l) = xs"
  by (induction xs) auto

lemma Atoi_Itoa: "n < 2 ^ 63 \<Longrightarrow> Atoi (Itoa n) = Inr (int n)"
  using ParseInt_FormatInt [of "int n"] by (simp add: Atoi_def Itoa_def)

section \<open>Properties of the bencode codec: decoding an encoding\<close>

lemma decodeString_encoded:
  assumes "length (Itoa (length s) @ '':'' @ s @ rest) < 2 ^ 63"
  shows "decodeString (Itoa (length s) @ '':'' @ s @ rest)
           = Ok (s, length (Itoa (length s)) + 1 + length s)"
proof -
  let ?h = "Itoa (length s)"
  let ?data = "?h @ '':'' @ s @ rest"
  have tw: "takeWhile (\<lambda>c. c \<noteq> CHR '':'') ?data = ?h"
    using dec_digits_all_digits is_digit_not_special
    by (simp add: Itoa_dec_digits takeWhile_until)
  have n: "length s < 2 ^ 63" using assms by simp
  have a: "Atoi (take (length ?h) ?data) = Inr (int (length s))"
    using Atoi_Itoa [OF n] by simp
  have bound: "int (length ?h) + 1 + int (length s) < 2 ^ 63"
    using assms by simp
  have w: "wrap64 (int (length ?h) + 1 + int (length s)) = int (length ?h) + 1 + int (length s)"
    using bound by (intro wrap64_id) simp_all
  show ?thesis
    unfolding decodeString_def tw Let_def a
    by (simp add: w nat_add_distrib)
qed

lemma FormatInt_chars:
  "c \<in> set (FormatInt i) \<Longrightarrow> is_digit c \<or> c = CHR ''-''"
  by (auto simp: FormatInt_def dec_digits_all_digits split: if_splits)

lemma FormatInt_no_e: "c \<in> set (FormatInt i) \<Longrightarrow> c \<noteq> CHR ''e''"
  using FormatInt_chars is_digit_not_special by blast

lemma FormatInt_nonempty: "FormatInt i \<noteq> []"
  by (simp add: FormatInt_def dec_digits_nonempty)

lemma dec_digits_long: "1 < length (dec_digits n) \<Longrightarrow> 0 < n"
  by (cases "n = 0") (simp_all add: dec_digits_zero)

lemma FormatInt_no_leading_zero:
  "\<not> (1 < length (FormatInt i) \<and> FormatInt i ! 0 = CHR ''0'')"
proof (cases "i < 0")
  case True
  then show ?thesis by (simp add: FormatInt_def)
next
  case False
  then show ?thesis
    using dec_digits_long [of "nat i"] dec_digits_hd_nonzero [of "nat i"]
    by (auto simp: FormatInt_def hd_conv_nth dec_digits_nonempty)
qed

lemma FormatInt_no_negative_zero:
  "\<not> (1 < length (FormatInt i) \<and> FormatInt i ! 0 = CHR ''-'' \<and> FormatInt i ! 1 = CHR ''0'')"
proof (cases "i < 0")
  case True
  then have "0 < nat (- i)" by simp
  from dec_digits_hd_nonzero [OF this] True show ?thesis
    by (simp add: FormatInt_def hd_conv_nth dec_digits_nonempty)
next
  case False
  then show ?thesis
    using hd_dec_digits_digit [of "nat i"] is_digit_not_special
    by (auto simp: FormatInt_def hd_conv_nth dec_digits_nonempty)
qed

lemma decodeInteger_encoded:
  fixes v :: int64
  shows "decodeInteger (''i'' @ FormatInt (sint v) @ ''e'' @ rest)
           = Ok (v, length (FormatInt (sint v)) + 2)"
proof -
  let ?f = "FormatInt (sint v)"
  let ?data = "''i'' @ ?f @ ''e'' @ rest"
  have tw: "takeWhile (\<lambda>c. c \<noteq> CHR ''e'') (drop 1 ?data) = ?f"
    using FormatInt_no_e by (simp add: takeWhile_until)
  have num: "take (1 + length ?f - 1) (drop 1 ?data) = ?f" by simp
  have range: "- (2 ^ 63) \<le> sint v" "sint v < 2 ^ 63"
    using sint_ge [of v] sint_lt [of v] by simp_all
  have p: "ParseInt ?f = Inr (sint v)"
    using range by (rule ParseInt_FormatInt)
  show ?thesis
    unfolding decodeInteger_def tw Let_def num
    using FormatInt_no_leading_zero [of "sint v"] FormatInt_no_negative_zero [of "sint v"]
    by (simp add: p)
qed

lemma dict_set_append:
  "\<forall>k' \<in> set (map fst acc). k' < k \<Longrightarrow> dict_set k v acc = acc @ [(k, v)]"
  by (induction acc) (auto simp: less_le_not_le)

lemma hd_Itoa_digit: "is_digit (hd (Itoa n))"
  by (simp add: Itoa_dec_digits hd_dec_digits_digit)

lemma Itoa_nonempty: "Itoa n \<noteq> []"
  by (simp add: Itoa_dec_digits dec_digits_nonempty)

lemma Decode_string_encoded:
  assumes "length (Itoa (length s) @ '':'' @ s @ rest) < 2 ^ 63"
  shows "Decode (Itoa (length s) @ '':'' @ s @ rest)
           = Ok (BString s, length (Itoa (length s)) + 1 + length s)"
  using decodeString_encoded [OF assms] hd_Itoa_digit [of "length s"] Itoa_nonempty [of "length s"]
  by (subst Decode.simps) simp

lemma enc_dec_ok_BString: "enc_dec_ok (BString s) (Itoa (length s) @ '':'' @ s)"
  unfolding enc_dec_ok_def
  using Decode_string_encoded [of s] hd_Itoa_digit [of "length s"] Itoa_nonempty [of "length s"]
    is_digit_not_special [of "hd (Itoa (length s))"]
  by auto

lemma enc_dec_ok_BInt64: "enc_dec_ok (BInt64 i) (''i'' @ FormatInt (sint i) @ ''e'')"
proof -
  have "Decode (''i'' @ FormatInt (sint i) @ ''e'' @ rest)
          = Ok (BInt64 i, length (FormatInt (sint i)) + 2)" for rest
    using decodeInteger_encoded [of i rest]
    by (subst Decode.simps) (simp add: is_digit_def)
  then show ?thesis
    unfolding enc_dec_ok_def by simp
qed

lemma decodeList_loop_encoded:
  assumes "\<And>x. x \<in> set xs \<Longrightarrow> \<exists>bs. enc_dec_ok x bs"
  shows "\<exists>ibs. (\<forall>buf. encodeItems buf xs = Inr (buf @ ibs))
           \<and> (\<forall>pre acc rest. length (pre @ ibs @ ''e'' @ rest) < 2 ^ 63 \<longrightarrow>
                 decodeList_loop (pre @ ibs @ ''e'' @ rest) (length pre) acc
                   = Ok (acc @ xs, length pre + length ibs + 1))"
  using assms
proof (induction xs)
  case Nil
  have "decodeList_loop (pre @ ''e'' @ rest) (length pre) acc = Ok (acc, length pre + 1)"
    for pre acc rest
    by (subst decodeList_loop.simps) simp
  then show ?case by (intro exI [of _ "[]"]) simp
next
  case (Cons x xs)
  from Cons.prems obtain bs where bs: "enc_dec_ok x bs" by auto
  from Cons.IH Cons.prems obtain ibs where
    enc: "\<And>buf. encodeItems buf xs = Inr (buf @ ibs)" and
    dec: "\<And>pre acc rest. length (pre @ ibs @ ''e'' @ rest) < 2 ^ 63 \<Longrightarrow>
                 decodeList_loop (pre @ ibs @ ''e'' @ rest) (length pre) acc
                   = Ok (acc @ xs, length pre + length ibs + 1)"
    by auto
  from bs have encx: "\<And>buf. encodeValue buf x = Inr (buf @ bs)"
    and ne: "bs \<noteq> []" and hd: "hd bs \<noteq> CHR ''e''"
    and decx: "\<And>rest. length (bs @ rest) < 2 ^ 63 \<Longrightarrow> Decode (bs @ rest) = Ok (x, length bs)"
    by (auto simp: enc_dec_ok_def)
  have e: "encodeItems buf (x # xs) = Inr (buf @ bs @ ibs)" for buf
    by (simp add: encx enc)
  have d: "decodeList_loop (pre @ (bs @ ibs) @ ''e'' @ rest) (length pre) acc
             = Ok (acc @ x # xs, length pre + length (bs @ ibs) + 1)"
    if len: "length (pre @ (bs @ ibs) @ ''e'' @ rest) < 2 ^ 63" for pre acc rest
  proof -
    let ?data = "pre @ (bs @ ibs) @ ''e'' @ rest"
    have at: "?data ! length pre = hd bs"
      using ne by (cases bs) (simp_all add: nth_append)
    have dr: "drop (length pre) ?data = bs @ (ibs @ ''e'' @ rest)" by simp
    have "length (bs @ (ibs @ ''e'' @ rest)) < 2 ^ 63" using len by simp
    from decx [OF this] have item: "Decode (drop (length pre) ?data) = Ok (x, length bs)"
      by (simp only: dr)
    have "length ((pre @ bs) @ ibs @ ''e'' @ rest) < 2 ^ 63" using len by simp
    from dec [OF this, of "acc @ [x]"]
    have next_step: "decodeList_loop ?data (length pre + length bs) (acc @ [x])
            = Ok (acc @ x # xs, length pre + length (bs @ ibs) + 1)"
      by (simp add: add.assoc)
    show ?thesis
      apply (subst decodeList_loop.simps)
      apply (simp only: item at)
      using hd ne next_step by simp
  qed
  show ?case
    using e d by (intro exI [of _ "bs @ ibs"]) blast
qed

lemma decodeDictionary_loop_encoded:
  assumes "\<And>kv. kv \<in> set ps \<Longrightarrow> \<exists>bs. enc_dec_ok (snd kv) bs"
  shows "\<exists>pbs. (\<forall>buf. encodePairs buf ps = Inr (buf @ pbs))
           \<and> (\<forall>pre acc rest. length (pre @ pbs @ ''e'' @ rest) < 2 ^ 63 \<longrightarrow>
                 sorted_wrt (<) (map fst (acc @ ps)) \<longrightarrow>
                 decodeDictionary_loop (pre @ pbs @ ''e'' @ rest) (length pre) acc
                   = Ok (acc @ ps, length pre + length pbs + 1))"
  using assms
proof (induction ps)
  case Nil
  have "decodeDictionary_loop (pre @ ''e'' @ rest) (length pre) acc = Ok (acc, length pre + 1)"
    for pre acc rest
    by (subst decodeDictionary_loop.simps) simp
  then show ?case by (intro exI [of _ "[]"]) simp
next
  case (Cons kv ps)
  obtain k v where kv: "kv = (k, v)" by (cases kv)
  from Cons.prems kv obtain bs where bs: "enc_dec_ok v bs" by fastforce
  from Cons.IH Cons.prems obtain pbs where
    enc: "\<And>buf. encodePairs buf ps = Inr (buf @ pbs)" and
    dec: "\<And>pre acc rest. length (pre @ pbs @ ''e'' @ rest) < 2 ^ 63 \<Longrightarrow>
                 sorted_wrt (<) (map fst (acc @ ps)) \<Longrightarrow>
                 decodeDictionary_loop (pre @ pbs @ ''e'' @ rest) (length pre) acc
                   = Ok (acc @ ps, length pre + length pbs + 1)"
    by auto
  from bs have encv: "\<And>buf. encodeValue buf v = Inr (buf @ bs)"
    and decv: "\<And>rest. length (bs @ rest) < 2 ^ 63 \<Longrightarrow> Decode (bs @ rest) = Ok (v, length bs)"
    by (auto simp: enc_dec_ok_def)
  let ?kb = "Itoa (length k) @ '':'' @ k"
  have e: "encodePairs buf (kv # ps) = Inr (buf @ (?kb @ bs) @ pbs)" for buf
    by (simp add: kv encv enc)
  have d: "decodeDictionary_loop (pre @ ((?kb @ bs) @ pbs) @ ''e'' @ rest) (length pre) acc
             = Ok (acc @ kv # ps, length pre + length ((?kb @ bs) @ pbs) + 1)"
    if len: "length (pre @ ((?kb @ bs) @ pbs) @ ''e'' @ rest) < 2 ^ 63"
      and srt: "sorted_wrt (<) (map fst (acc @ kv # ps))" for pre acc rest
  proof -
    let ?data = "pre @ ((?kb @ bs) @ pbs) @ ''e'' @ rest"
    have at: "?data ! length pre = hd (Itoa (length k))"
      using Itoa_nonempty [of "length k"] by (cases "Itoa (length k)") (simp_all add: nth_append)
    have at_ne: "hd (Itoa (length k)) \<noteq> CHR ''e''"
      using hd_Itoa_digit [of "length k"] is_digit_not_special by blast
    have dr: "drop (length pre) ?data = Itoa (length k) @ '':'' @ k @ (bs @ pbs @ ''e'' @ rest)"
      by simp
    have "length (Itoa (length k) @ '':'' @ k @ (bs @ pbs @ ''e'' @ rest)) < 2 ^ 63"
      using len by simp
    from Decode_string_encoded [OF this]
    have key: "Decode (drop (length pre) ?data) = Ok (BString k, length ?kb)"
      by (simp only: dr) simp
    have dr2: "drop (length pre + length ?kb) ?data = bs @ (pbs @ ''e'' @ rest)"
      by simp
    have "length (bs @ (pbs @ ''e'' @ rest)) < 2 ^ 63" using len by simp
    from decv [OF this]
    have val: "Decode (bs @ pbs @ ''e'' @ rest) = Ok (v, length bs)"
      by simp
    have ins: "dict_set k v acc = acc @ [(k, v)]"
      using srt by (intro dict_set_append) (auto simp: kv sorted_wrt_append)
    have "length ((pre @ ?kb @ bs) @ pbs @ ''e'' @ rest) < 2 ^ 63" using len by simp
    moreover have "sorted_wrt (<) (map fst ((acc @ [(k, v)]) @ ps))" using srt by (simp add: kv)
    ultimately have "decodeDictionary_loop ((pre @ ?kb @ bs) @ pbs @ ''e'' @ rest)
            (length (pre @ ?kb @ bs)) (acc @ [(k, v)])
          = Ok ((acc @ [(k, v)]) @ ps, length (pre @ ?kb @ bs) + length pbs + 1)"
      by (rule dec)
    then have next_step: "decodeDictionary_loop ?data (length pre + length ?kb + length bs)
            (dict_set k v acc)
          = Ok (acc @ kv # ps, length pre + length ((?kb @ bs) @ pbs) + 1)"
      by (simp add: ins kv add.assoc)
    show ?thesis
      apply (subst decodeDictionary_loop.simps)
      apply (simp only: key at)
      using at_ne next_step val by simp
  qed
  show ?case
    using e d by (intro exI [of _ "(?kb @ bs) @ pbs"]) blast
qed

lemma sort_key_fst_sorted:
  "sorted_wrt (<) (map fst (d :: (string \<times> 'v) list)) \<Longrightarrow> sort_key fst d = d"
  by (intro sort_key_id_if_sorted strict_sorted_imp_sorted)

lemma supported_enc_dec_ok: "supported v \<Longrightarrow> \<exists>bs. enc_dec_ok v bs"
proof (induction v)
  case (BString s)
  show ?case using enc_dec_ok_BString by blast
next
  case (BInt64 i)
  show ?case using enc_dec_ok_BInt64 by blast
next
  case (BList xs)
  then have "\<And>x. x \<in> set xs \<Longrightarrow> \<exists>bs. enc_dec_ok x bs" by simp
  from decodeList_loop_encoded [OF this] obtain ibs where
    enc: "\<And>buf. encodeItems buf xs = Inr (buf @ ibs)" and
    dec: "\<And>pre acc rest. length (pre @ ibs @ ''e'' @ rest) < 2 ^ 63 \<Longrightarrow>
                 decodeList_loop (pre @ ibs @ ''e'' @ rest) (length pre) acc
                   = Ok (acc @ xs, length pre + length ibs + 1)"
    by blast
  have d: "Decode ((''l'' @ ibs @ ''e'') @ rest) = Ok (BList xs, length (''l'' @ ibs @ ''e''))"
    if len: "length ((''l'' @ ibs @ ''e'') @ rest) < 2 ^ 63" for rest
  proof -
    have "length (''l'' @ ibs @ ''e'' @ rest) < 2 ^ 63" using len by simp
    from dec [OF this, of "[]"]
    have "decodeList_loop (CHR ''l'' # ibs @ CHR ''e'' # rest) (Suc 0) [] = Ok (xs, Suc (Suc (length ibs)))"
      by simp
    then show ?thesis
      by (subst Decode.simps) (simp add: is_digit_def decodeList.simps)
  qed
  have "enc_dec_ok (BList xs) (''l'' @ ibs @ ''e'')"
    unfolding enc_dec_ok_def using d by (simp add: enc)
  then show ?case by blast
next
  case (BDict d)
  from BDict.prems have srt: "sorted_wrt (<) (map fst d)"
    and sup: "\<And>kv. kv \<in> set d \<Longrightarrow> supported (snd kv)" by simp_all
  have "\<exists>bs. enc_dec_ok (snd kv) bs" if "kv \<in> set d" for kv
  proof -
    have "snd kv \<in> Basic_BNFs.snds kv" by (cases kv) (simp add: snds.simps)
    from BDict.IH [OF that this sup [OF that]] show ?thesis .
  qed
  from decodeDictionary_loop_encoded [of d, OF this] obtain pbs where
    enc: "\<And>buf. encodePairs buf d = Inr (buf @ pbs)" and
    dec: "\<And>pre acc rest. length (pre @ pbs @ ''e'' @ rest) < 2 ^ 63 \<Longrightarrow>
                 sorted_wrt (<) (map fst (acc @ d)) \<Longrightarrow>
                 decodeDictionary_loop (pre @ pbs @ ''e'' @ rest) (length pre) acc
                   = Ok (acc @ d, length pre + length pbs + 1)"
    by blast
  have e: "EncodeDict d = Inr (''d'' @ pbs @ ''e'')"
    by (simp add: EncodeDict.simps sort_key_fst_sorted [OF srt] enc)
  have dc: "Decode ((''d'' @ pbs @ ''e'') @ rest) = Ok (BDict d, length (''d'' @ pbs @ ''e''))"
    if len: "length ((''d'' @ pbs @ ''e'') @ rest) < 2 ^ 63" for rest
  proof -
    have "length (''d'' @ pbs @ ''e'' @ rest) < 2 ^ 63" using len by simp
    from dec [OF this, of "[]"] srt
    have "decodeDictionary_loop (CHR ''d'' # pbs @ CHR ''e'' # rest) (Suc 0) []
            = Ok (d, Suc (Suc (length pbs)))"
      by simp
    then show ?thesis
      by (subst Decode.simps) (simp add: is_digit_def decodeDictionary.simps)
  qed
  have "enc_dec_ok (BDict d) (''d'' @ pbs @ ''e'')"
    unfolding enc_dec_ok_def using dc by (simp add: e)
  then show ?case by blast
qed simp_all

text \<open>
  Claim C2. For every dictionary built from strings, 64-bit integers, lists and
  dictionaries of those, \<open>EncodeDict\<close> succeeds, and \<open>Decode\<close> of the
  bytes it produces returns the same dictionary and consumes all the bytes.
  The encoding is shorter than \<open>2^63\<close> bytes, as every Go slice is.
\<close>

theorem C2_Decode_EncodeDict_roundtrip:
  assumes "supported (BDict d)"
  shows "\<exists>bs. EncodeDict d = Inr bs
           \<and> (length bs < 2 ^ 63 \<longrightarrow> Decode bs = Ok (BDict d, length bs))"
proof -
  from supported_enc_dec_ok [OF assms] obtain bs where ok: "enc_dec_ok (BDict d) bs" by blast
  then have "encodeValue [] (BDict d) = Inr bs" by (simp add: enc_dec_ok_def)
  then have e: "EncodeDict d = Inr bs" by (simp split: sum.splits)
  from ok have "length (bs @ []) < 2 ^ 63 \<longrightarrow> Decode (bs @ []) = Ok (BDict d, length bs)"
    unfolding enc_dec_ok_def by blast
  with e show ?thesis by simp
qed

theorem C2_Decode_EncodeDict_roundtrip_witness:
  "supported (BDict [(''a'', BList [BInt64 (-5), BDict []]), (''foo'', BString ''bar'')])
   \<and> EncodeDict [(''a'', BList [BInt64 (-5), BDict []]), (''foo'', BString ''bar'')]
        = Inr ''d1:ali-5edee3:foo3:bare''
   \<and> Decode ''d1:ali-5edee3:foo3:bare''
        = Ok (BDict [(''a'', BList [BInt64 (-5), BDict []]), (''foo'', BString ''bar'')], 23)"
proof -
  let ?d = "[(''a'', BList [BInt64 (-5), BDict []]), (''foo'', BString ''bar'')]"
  have s: "supported (BDict ?d)"
    by simp
  have e: "EncodeDict ?d = Inr ''d1:ali-5edee3:foo3:bare''"
    by (simp add: EncodeDict.simps Itoa_def FormatInt_def dec_digits.simps digit_char_def)
  from C2_Decode_EncodeDict_roundtrip [OF s] s e show ?thesis
    by simp
qed

section \<open>Properties of the decoder\<close>

lemmas strconv_eval = Atoi_def ParseInt_def ParseUint_def is_digit_def digit_val_def
  maxUint64_def wrap64_def Let_def

lemmas decode_eval = decodeString_def decodeInteger_def Decode.simps decodeList.simps
  decodeList_loop.simps decodeDictionary.simps decodeDictionary_loop.simps

lemma decodeString_consumed:
  "decodeString data = Ok (s, n) \<Longrightarrow> 0 < n \<and> n \<le> length data"
  by (auto simp: decodeString_def Let_def split: if_splits sum.splits)

lemma decodeString_not_Diverges: "decodeString data \<noteq> Diverges"
  by (auto simp: decodeString_def Let_def split: if_splits sum.splits)

lemma decodeInteger_consumed:
  "decodeInteger data = Ok (i, n) \<Longrightarrow> 0 < n \<and> n \<le> length data"
  by (auto simp: decodeInteger_def Let_def split: if_splits sum.splits)

lemma decodeInteger_not_Diverges: "decodeInteger data \<noteq> Diverges"
  by (auto simp: decodeInteger_def Let_def split: if_splits sum.splits)

lemma boxed_Ok: "boxed f r = Ok (v, n) \<longleftrightarrow> (\<exists>x. r = Ok (x, n) \<and> v = f x)"
proof (cases r)
  case (Ok p)
  then show ?thesis by (cases p) auto
qed auto

lemma boxed_Diverges: "boxed f r = Diverges \<longleftrightarrow> r = Diverges"
proof (cases r)
  case (Ok p)
  then show ?thesis by (cases p) auto
qed auto

text \<open>
  Whenever \<open>Decode\<close> returns a value, it reports a count of consumed bytes
  that is positive and at most the length of the input; and neither it nor
  the loops ever take the \<open>Diverges\<close> branch. (Every error return of the
  source reports the count 0; the model's \<open>Err\<close> carries no count.)
\<close>

lemma Decode_consumed_all:
  "Decode data \<noteq> Diverges \<and> (\<forall>v n. Decode data = Ok (v, n) \<longrightarrow> 0 < n \<and> n \<le> length data)"
  "decodeList data \<noteq> Diverges \<and> (\<forall>v n. decodeList data = Ok (v, n) \<longrightarrow> 0 < n \<and> n \<le> length data)"
  "decodeList_loop data pos result \<noteq> Diverges
     \<and> (\<forall>v n. decodeList_loop data pos result = Ok (v, n) \<longrightarrow> pos < n \<and> n \<le> length data)"
  "decodeDictionary data \<noteq> Diverges
     \<and> (\<forall>v n. decodeDictionary data = Ok (v, n) \<longrightarrow> 0 < n \<and> n \<le> length data)"
  "decodeDictionary_loop data pos dict \<noteq> Diverges
     \<and> (\<forall>v n. decodeDictionary_loop data pos dict = Ok (v, n) \<longrightarrow> pos < n \<and> n \<le> length data)"
proof (induction data and data and data pos result and data and data pos dict
    rule: Decode_decodeList_decodeList_loop_decodeDictionary_decodeDictionary_loop.induct)
  case (1 data)
  then show ?case
    unfolding Decode.simps [of data]
    by (auto simp: boxed_Ok boxed_Diverges decodeString_not_Diverges decodeInteger_not_Diverges
        dest: decodeString_consumed decodeInteger_consumed)
next
  case (2 data)
  then show ?case
    unfolding decodeList.simps [of data] by auto
next
  case (3 data pos result)
  show ?case
  proof (cases "pos < length data \<and> data ! pos \<noteq> CHR ''e''")
    case False
    then show ?thesis
      unfolding decodeList_loop.simps [of data pos result] by auto
  next
    case True
    note IH1 = "3.IH" (1) [OF True]
    show ?thesis
    proof (cases "Decode (drop pos data)")
      case (Ok p)
      obtain item n where p: "p = (item, n)" by (cases p)
      from IH1 Ok p have n: "0 < n" "n \<le> length data - pos" by auto
      from n have nz: "n \<noteq> 0" by simp
      note IH2 = "3.IH" (2) [OF True Ok p [symmetric] nz]
      have eq: "decodeList_loop data pos result = decodeList_loop data (pos + n) (result @ [item])"
        using True Ok p nz by (subst decodeList_loop.simps) simp
      show ?thesis unfolding eq using IH2 n by auto
    next
      case (Err e)
      then show ?thesis using True
        unfolding decodeList_loop.simps [of data pos result] by simp
    next
      case Panic
      then show ?thesis using True
        unfolding decodeList_loop.simps [of data pos result] by simp
    next
      case Diverges
      with IH1 show ?thesis by simp
    qed
  qed
next
  case (4 data)
  then show ?case
    unfolding decodeDictionary.simps [of data] by auto
next
  case (5 data pos dict)
  show ?case
  proof (cases "pos < length data \<and> data ! pos \<noteq> CHR ''e''")
    case False
    then show ?thesis
      unfolding decodeDictionary_loop.simps [of data pos dict] by auto
  next
    case True
    note IH1 = "5.IH" (1) [OF True]
    show ?thesis
    proof (cases "Decode (drop pos data)")
      case (Ok p)
      obtain key n where p: "p = (key, n)" by (cases p)
      from IH1 Ok p have n: "0 < n" "n \<le> length data - pos" by auto
      show ?thesis
      proof (cases "\<exists>keyStr. key = BString keyStr")
        case False
        then have "decodeDictionary_loop data pos dict = Err NonStringKey"
          using True Ok p by (subst decodeDictionary_loop.simps) (cases key; simp)
        then show ?thesis by simp
      next
        case isstr: True
        then obtain keyStr where k: "key = BString keyStr" by blast
        note IH2 = "5.IH" (2) [OF True Ok p [symmetric] k]
        show ?thesis
        proof (cases "Decode (drop (pos + n) data)")
          case ok2: (Ok q)
          obtain val m where q: "q = (val, m)" by (cases q)
          have nz: "n + m \<noteq> 0" using n by simp
          note IH3 = "5.IH" (3) [OF True Ok p [symmetric] k ok2 q [symmetric] nz]
          from IH2 ok2 q have m: "m \<le> length data - (pos + n)" by auto
          have eq: "decodeDictionary_loop data pos dict
                  = decodeDictionary_loop data (pos + n + m) (dict_set keyStr val dict)"
            using True Ok p k ok2 q n(1) by (subst decodeDictionary_loop.simps) simp
          show ?thesis unfolding eq using IH3 n by auto
        next
          case (Err e)
          then have "decodeDictionary_loop data pos dict = Err (DictionaryValueError e)"
            using True Ok p k by (subst decodeDictionary_loop.simps) simp
          then show ?thesis by simp
        next
          case Panic
          then have "decodeDictionary_loop data pos dict = Panic"
            using True Ok p k by (subst decodeDictionary_loop.simps) simp
          then show ?thesis by simp
        next
          case Diverges
          with IH2 show ?thesis by simp
        qed
      qed
    next
      case (Err e)
      then have "decodeDictionary_loop data pos dict = Err (DictionaryKeyError e)"
        using True by (subst decodeDictionary_loop.simps) simp
      then show ?thesis by simp
    next
      case Panic
      then have "decodeDictionary_loop data pos dict = Panic"
        using True by (subst decodeDictionary_loop.simps) simp
      then show ?thesis by simp
    next
      case Diverges
      with IH1 show ?thesis by simp
    qed
  qed
qed

lemma Decode_consumed:
  "Decode data = Ok (v, n) \<Longrightarrow> 0 < n \<and> n \<le> length data"
  using Decode_consumed_all(1) [of data] by blast

lemma Decode_not_Diverges: "Decode data \<noteq> Diverges"
  using Decode_consumed_all(1) [of data] by blast

text \<open>
  Claim C1. On a non-empty buffer \<open>Decode\<close> dispatches on the first byte:
  a digit gives the string decoder, \<open>i\<close> the integer decoder, \<open>l\<close> the
  list decoder, \<open>d\<close> the dictionary decoder, and any other byte the
  unknown-type error. The input \<open>d3:foo3:bare\<close> decodes to the dictionary
  with the one entry foo = bar, consuming 12 bytes.
\<close>

theorem C1_Decode_dispatch:
  "data \<noteq> [] \<Longrightarrow>
     (hd data \<in> set ''0123456789'' \<longrightarrow> Decode data = boxed BString (decodeString data))
   \<and> (hd data = CHR ''i'' \<longrightarrow> Decode data = boxed BInt64 (decodeInteger data))
   \<and> (hd data = CHR ''l'' \<longrightarrow> Decode data = boxed BList (decodeList data))
   \<and> (hd data = CHR ''d'' \<longrightarrow> Decode data = boxed BDict (decodeDictionary data))
   \<and> (hd data \<notin> set ''0123456789ild'' \<longrightarrow> Decode data = Err (UnknownType (hd data)))
   \<and> Decode ''d3:foo3:bare'' = Ok (BDict [(''foo'', BString ''bar'')], 12)"
proof -
  assume ne: "data \<noteq> []"
  have ex: "Decode ''d3:foo3:bare'' = Ok (BDict [(''foo'', BString ''bar'')], 12)"
    by (simp add: decode_eval strconv_eval)
  show ?thesis
    using ne ex by (subst (1 2 3 4 5) Decode.simps) (auto simp: is_digit_def)
qed

theorem C1_Decode_dispatch_witness:
  "Decode ''3:abc'' = Ok (BString ''abc'', 5)
   \<and> Decode ''i42e'' = Ok (BInt64 42, 4)
   \<and> Decode ''l1:ae'' = Ok (BList [BString ''a''], 5)
   \<and> Decode ''de'' = Ok (BDict [], 2)
   \<and> Decode ''x'' = Err (UnknownType CHR ''x'')"
  using C1_Decode_dispatch [of "''3:abc''"] C1_Decode_dispatch [of "''i42e''"]
    C1_Decode_dispatch [of "''l1:ae''"] C1_Decode_dispatch [of "''de''"]
    C1_Decode_dispatch [of "''x''"]
  by (simp add: decode_eval strconv_eval)

text \<open>
  Claim C10 at the input \<open>9223372036854775807:\<close> (20 bytes). The length
  prefix is the largest \<open>int\<close>; \<open>i+1+length\<close> wraps around to a negative
  number, the check \<open>i+1+length > len(data)\<close> lets it through, and the slice
  expression panics: \<open>Decode\<close> neither returns a value nor an error.
\<close>

theorem C10_Decode_length_overflow_panics:
  "Decode ''9223372036854775807:'' = Panic"
  by (simp add: decode_eval strconv_eval)

lemma ParseUint_loop_Inr_digits:
  "ParseUint_loop s n = Inr m \<Longrightarrow> \<forall>c \<in> set s. is_digit c"
  by (induction s arbitrary: n) (auto split: if_splits)

lemma ParseInt_Inr_valid: "ParseInt s = Inr i \<Longrightarrow> valid_decimal s"
  by (auto simp: ParseInt_def ParseUint_def valid_decimal_def Let_def
      split: if_splits sum.splits dest: ParseUint_loop_Inr_digits)

lemma decodeInteger_body:
  assumes "CHR ''e'' \<notin> set body"
  shows "decodeInteger (CHR ''i'' # body @ CHR ''e'' # rest) =
     (if 1 < length body \<and> body ! 0 = CHR ''0'' then Err LeadingZero
      else if 1 < length body \<and> body ! 0 = CHR ''-'' \<and> body ! 1 = CHR ''0'' then Err NegativeZero
      else case ParseInt body of
             Inl e \<Rightarrow> Err (InvalidDigits e)
           | Inr num \<Rightarrow> Ok (word_of_int num, length body + 2))"
proof -
  have "takeWhile (\<lambda>c. c \<noteq> CHR ''e'') (body @ CHR ''e'' # rest) = body"
    using assms by (intro takeWhile_until) auto
  then have tw: "takeWhile (\<lambda>c. c \<noteq> CHR ''e'') (drop 1 (CHR ''i'' # body @ CHR ''e'' # rest)) = body"
    by simp
  have num: "take (1 + length body - 1) (drop 1 (CHR ''i'' # body @ CHR ''e'' # rest)) = body"
    by simp
  show ?thesis
    unfolding decodeInteger_def tw Let_def num by (simp split: sum.splits)
qed

lemma decodeInteger_unterminated:
  assumes "2 \<le> length data" "hd data = CHR ''i''" "CHR ''e'' \<notin> set (tl data)"
  shows "decodeInteger data = Err UnterminatedInteger"
proof -
  have tw: "takeWhile (\<lambda>c. c \<noteq> CHR ''e'') (drop (Suc 0) data) = drop (Suc 0) data"
    using assms(3) by (auto simp: drop_Suc takeWhile_eq_all_conv)
  have len: "Suc (length data - Suc 0) = length data"
    using assms(1) by simp
  show ?thesis
    using assms(1,2) by (simp add: decodeInteger_def Let_def tw len)
qed

text \<open>
  Claim C5, as the code has it. \<open>i0e\<close> decodes to 0; \<open>i042e\<close>, and any
  body of more than one byte that starts with \<open>0\<close>, fails with the
  leading-zero error; \<open>i-0e\<close> fails with the negative-zero error; \<open>i-5e\<close>
  decodes to -5; a body that is not a decimal number fails with the
  invalid-digits error, unless it has more than one byte and starts with
  \<open>0\<close> or with \<open>-0\<close> (these two checks come first); an input of at least
  two bytes that starts with \<open>i\<close> and has no \<open>e\<close> after it fails with the
  unterminated-integer error.
\<close>

theorem C5_decodeInteger_cases:
  "decodeInteger ''i0e'' = Ok (0, 3)
   \<and> decodeInteger ''i042e'' = Err LeadingZero
   \<and> (\<forall>body rest. CHR ''e'' \<notin> set body \<and> 1 < length body \<and> hd body = CHR ''0''
         \<longrightarrow> decodeInteger (CHR ''i'' # body @ CHR ''e'' # rest) = Err LeadingZero)
   \<and> decodeInteger ''i-0e'' = Err NegativeZero
   \<and> decodeInteger ''i-5e'' = Ok (- 5, 4)
   \<and> (\<forall>body rest. CHR ''e'' \<notin> set body \<and> \<not> valid_decimal body
         \<and> \<not> (1 < length body \<and> hd body = CHR ''0'')
         \<and> \<not> (1 < length body \<and> hd body = CHR ''-'' \<and> body ! 1 = CHR ''0'')
         \<longrightarrow> (\<exists>e. decodeInteger (CHR ''i'' # body @ CHR ''e'' # rest) = Err (InvalidDigits e)))
   \<and> (\<forall>data. 2 \<le> length data \<and> hd data = CHR ''i'' \<and> CHR ''e'' \<notin> set (tl data)
         \<longrightarrow> decodeInteger data = Err UnterminatedInteger)"
proof (intro conjI allI impI)
  show "decodeInteger ''i0e'' = Ok (0, 3)"
    by (simp add: decodeInteger_def strconv_eval)
  show "decodeInteger ''i042e'' = Err LeadingZero"
    by (simp add: decodeInteger_def strconv_eval)
  show "decodeInteger ''i-0e'' = Err NegativeZero"
    by (simp add: decodeInteger_def strconv_eval)
  show "decodeInteger ''i-5e'' = Ok (- 5, 4)"
    by (simp add: decodeInteger_def strconv_eval)
next
  fix body rest
  assume "CHR ''e'' \<notin> set body \<and> 1 < length body \<and> hd body = CHR ''0''"
  then have "CHR ''e'' \<notin> set body" and "1 < length body \<and> body ! 0 = CHR ''0''"
    by (cases body; simp)+
  then show "decodeInteger (CHR ''i'' # body @ CHR ''e'' # rest) = Err LeadingZero"
    by (simp add: decodeInteger_body)
next
  fix body rest
  assume a: "CHR ''e'' \<notin> set body \<and> \<not> valid_decimal body
         \<and> \<not> (1 < length body \<and> hd body = CHR ''0'')
         \<and> \<not> (1 < length body \<and> hd body = CHR ''-'' \<and> body ! 1 = CHR ''0'')"
  then have "\<exists>e. ParseInt body = Inl e"
    using ParseInt_Inr_valid [of body] by (cases "ParseInt body") auto
  moreover have "\<not> (1 < length body \<and> body ! 0 = CHR ''0'')"
    using a by (cases body) auto
  moreover have "\<not> (1 < length body \<and> body ! 0 = CHR ''-'' \<and> body ! 1 = CHR ''0'')"
    using a by (cases body) auto
  ultimately show "\<exists>e. decodeInteger (CHR ''i'' # body @ CHR ''e'' # rest) = Err (InvalidDigits e)"
    using a by (auto simp: decodeInteger_body)
next
  fix data
  assume "2 \<le> length data \<and> hd data = CHR ''i'' \<and> CHR ''e'' \<notin> set (tl data)"
  then show "decodeInteger data = Err UnterminatedInteger"
    by (intro decodeInteger_unterminated) simp_all
qed

theorem C5_decodeInteger_cases_witness:
  "decodeInteger ''i007e'' = Err LeadingZero
   \<and> (\<exists>e. decodeInteger ''i4a2e'' = Err (InvalidDigits e))
   \<and> decodeInteger ''i42'' = Err UnterminatedInteger"
proof -
  note c = C5_decodeInteger_cases
  from c have lz: "\<forall>body rest. CHR ''e'' \<notin> set body \<and> 1 < length body \<and> hd body = CHR ''0''
         \<longrightarrow> decodeInteger (CHR ''i'' # body @ CHR ''e'' # rest) = Err LeadingZero"
    by blast
  from c have dg: "\<forall>body rest. CHR ''e'' \<notin> set body \<and> \<not> valid_decimal body
         \<and> \<not> (1 < length body \<and> hd body = CHR ''0'')
         \<and> \<not> (1 < length body \<and> hd body = CHR ''-'' \<and> body ! 1 = CHR ''0'')
         \<longrightarrow> (\<exists>e. decodeInteger (CHR ''i'' # body @ CHR ''e'' # rest) = Err (InvalidDigits e))"
    by blast
  from c have ut: "\<forall>data. 2 \<le> length data \<and> hd data = CHR ''i'' \<and> CHR ''e'' \<notin> set (tl data)
         \<longrightarrow> decodeInteger data = Err UnterminatedInteger"
    by blast
  have "decodeInteger ''i007e'' = Err LeadingZero"
    using lz [rule_format, of "''007''" "[]"] by simp
  moreover have "\<exists>e. decodeInteger ''i4a2e'' = Err (InvalidDigits e)"
    using dg [rule_format, of "''4a2''" "[]"] by (simp add: valid_decimal_def is_digit_def)
  moreover have "decodeInteger ''i42'' = Err UnterminatedInteger"
    using ut [rule_format, of "''i42''"] by simp
  ultimately show ?thesis by blast
qed

text \<open>
  Claim C5 as stated fails on two inputs. The body \<open>0a\<close> is not a decimal
  number, and \<open>i0ae\<close> fails with the leading-zero error, not the
  invalid-digits error. The input \<open>i\<close> has no terminating \<open>e\<close>, and it
  fails with the error \<open>invalid integer format\<close> of the entry guard, not the
  unterminated-integer error.
\<close>

theorem C5_decodeInteger_counterexample:
  "\<not> valid_decimal ''0a'' \<and> decodeInteger ''i0ae'' = Err LeadingZero
   \<and> decodeInteger ''i'' = Err InvalidIntegerFormat"
  by (simp add: valid_decimal_def decodeInteger_def strconv_eval)

section \<open>Properties of the handshake\<close>

lemma copy_at_fits:
  "length pre = off \<Longrightarrow> length src \<le> length rest \<Longrightarrow>
   copy_at (pre @ rest) off src = Some (pre @ src @ drop (length src) rest)"
  by (simp add: copy_at_def Let_def min_def)

lemma Serialize_short:
  assumes wf: "handshake_wf h" and len: "length (Pstr h) \<le> 19"
  shows "Serialize h =
     Ok (of_nat (length (Pstr h)) # map byte_of_char (Pstr h) @ Reserved h @ InfoHash h @ PeerID h
           @ replicate (19 - length (Pstr h)) 0)"
proof -
  let ?n = "length (Pstr h)"
  let ?p = "map byte_of_char (Pstr h)"
  have buf0: "(replicate HandshakeLength (0::byte))[0 := of_nat ?n] = [of_nat ?n] @ replicate 67 0"
    by (simp add: HandshakeLength_def numeral_eq_Suc)
  have c1: "copy_at ([of_nat ?n] @ replicate 67 (0::byte)) 1 ?p
      = Some ([of_nat ?n] @ ?p @ replicate (67 - ?n) 0)"
    using len by (subst copy_at_fits) simp_all
  have c2: "copy_at (([of_nat ?n] @ ?p) @ replicate (67 - ?n) (0::byte)) (1 + ?n) (Reserved h)
      = Some (([of_nat ?n] @ ?p) @ Reserved h @ replicate (59 - ?n) 0)"
    using len wf by (subst copy_at_fits) (simp_all add: handshake_wf_def)
  have c3: "copy_at (([of_nat ?n] @ ?p @ Reserved h) @ replicate (59 - ?n) (0::byte)) (1 + ?n + 8) (InfoHash h)
      = Some (([of_nat ?n] @ ?p @ Reserved h) @ InfoHash h @ replicate (39 - ?n) 0)"
    using len wf by (subst copy_at_fits) (simp_all add: handshake_wf_def)
  have c4: "copy_at (([of_nat ?n] @ ?p @ Reserved h @ InfoHash h) @ replicate (39 - ?n) (0::byte)) (1 + ?n + 8 + 20) (PeerID h)
      = Some (([of_nat ?n] @ ?p @ Reserved h @ InfoHash h) @ PeerID h @ replicate (19 - ?n) 0)"
    using len wf by (subst copy_at_fits) (simp_all add: handshake_wf_def)
  show ?thesis
    unfolding Serialize_def Let_def buf0
    using c1 c2 c3 c4 by simp
qed

text \<open>
  Claim C3, as the code has it. \<open>Serialize\<close> allocates \<open>HandshakeLength = 68\<close>
  bytes whatever the protocol string is. For a handshake whose protocol
  string has at most 19 bytes the buffer has exactly 68 bytes: byte 0 is the
  length of the protocol string, then come the protocol string, the 8
  reserved bytes, the 20-byte info-hash, the 20-byte peer-id and zero bytes up
  to 68. Its length is \<open>1 + pstrlen + 48\<close> exactly when \<open>pstrlen = 19\<close>.
\<close>

theorem C3_Serialize_layout:
  assumes "handshake_wf h" and "length (Pstr h) \<le> 19"
  shows "\<exists>buf. Serialize h = Ok buf
           \<and> length buf = HandshakeLength
           \<and> buf ! 0 = of_nat (length (Pstr h))
           \<and> buf = [of_nat (length (Pstr h))] @ map byte_of_char (Pstr h) @ Reserved h
                     @ InfoHash h @ PeerID h @ replicate (19 - length (Pstr h)) 0
           \<and> (length buf = 1 + length (Pstr h) + 48 \<longleftrightarrow> length (Pstr h) = 19)"
  using assms Serialize_short [OF assms]
  by (auto simp: handshake_wf_def HandshakeLength_def)

theorem C3_Serialize_layout_witness:
  "handshake_wf (NewHandshake (replicate 20 1) (replicate 20 2))
   \<and> length (Pstr (NewHandshake (replicate 20 1) (replicate 20 2))) \<le> 19
   \<and> (\<exists>buf. Serialize (NewHandshake (replicate 20 1) (replicate 20 2)) = Ok buf
          \<and> length buf = 68 \<and> buf ! 0 = 19)"
proof -
  have wf: "handshake_wf (NewHandshake (replicate 20 1) (replicate 20 2))"
    by (simp add: handshake_wf_def NewHandshake_def)
  have len: "length (Pstr (NewHandshake (replicate 20 1) (replicate 20 2))) \<le> 19"
    by (simp add: NewHandshake_def ProtocolIdentifier_def)
  have "length (Pstr (NewHandshake (replicate 20 1) (replicate 20 2))) = 19"
    by (simp add: NewHandshake_def ProtocolIdentifier_def)
  with C3_Serialize_layout [OF wf len] wf len show ?thesis
    by (auto simp: HandshakeLength_def)
qed

text \<open>
  Claim C3 as stated fails: with the two-byte protocol string \<open>BT\<close> the
  buffer still has 68 bytes, not \<open>1 + 2 + 48 = 51\<close>.
\<close>

theorem C3_Serialize_length_counterexample:
  "Serialize \<lparr>Pstr = ''BT'', Reserved = replicate 8 0,
              InfoHash = replicate 20 1, PeerID = replicate 20 2\<rparr>
     = Ok ([2, 66, 84] @ replicate 8 0 @ replicate 20 1 @ replicate 20 2 @ replicate 17 0)
   \<and> length ([2, 66, 84] @ replicate 8 (0::byte) @ replicate 20 1 @ replicate 20 2 @ replicate 17 0)
       \<noteq> 1 + length ''BT'' + 48"
  by code_simp

text \<open>A protocol string of 40 bytes or more makes \<open>Serialize\<close> panic.\<close>

lemma Serialize_long_panics:
  "Serialize \<lparr>Pstr = replicate 40 CHR ''x'', Reserved = replicate 8 0,
              InfoHash = replicate 20 1, PeerID = replicate 20 2\<rparr> = Panic"
  by code_simp

lemma replicate_8_zero: "replicate 8 (0::byte) = [0, 0, 0, 0, 0, 0, 0, 0]"
  by (simp add: numeral_eq_Suc)

lemma list_update_7:
  "[a0, a1, a2, a3, a4, a5, a6, a7][7 := x] = [a0, a1, a2, a3, a4, a5, a6, x]"
  by (simp add: numeral_eq_Suc)

lemma list_update_5:
  "[a0, a1, a2, a3, a4, a5, a6, a7][5 := x] = [a0, a1, a2, a3, a4, x, a6, a7]"
  by (simp add: numeral_eq_Suc)

text \<open>
  Claim C9. On a handshake whose reserved bytes are all zero,
  \<open>SetExtension ExtensionDHT\<close> makes reserved byte 7 equal to 1 and leaves the
  other reserved bytes zero; \<open>SetExtension ExtensionExtensions\<close> after it makes
  byte 5 equal to 32 and leaves byte 7 and the others as they were; and on any
  handshake an identifier other than the three known ones changes nothing.
\<close>

theorem C9_SetExtension_bits:
  "Reserved h = replicate 8 0 \<Longrightarrow>
     Reserved (SetExtension h ExtensionDHT) = [0, 0, 0, 0, 0, 0, 0, 1]
   \<and> Reserved (SetExtension (SetExtension h ExtensionDHT) ExtensionExtensions)
       = [0, 0, 0, 0, 0, 32, 0, 1]
   \<and> (\<forall>h' ext. ext \<noteq> ExtensionDHT \<and> ext \<noteq> ExtensionExtensions \<and> ext \<noteq> ExtensionFast
         \<longrightarrow> SetExtension h' ext = h')"
  by (simp add: SetExtension_def ExtensionDHT_def ExtensionExtensions_def ExtensionFast_def
        replicate_8_zero list_update_7 list_update_5)

theorem C9_SetExtension_bits_witness:
  "Reserved (SetExtension (NewHandshake (replicate 20 1) (replicate 20 2)) ExtensionDHT)
     = [0, 0, 0, 0, 0, 0, 0, 1]
   \<and> Reserved (SetExtension (SetExtension (NewHandshake (replicate 20 1) (replicate 20 2))
                  ExtensionDHT) ExtensionExtensions)
       = [0, 0, 0, 0, 0, 32, 0, 1]
   \<and> SetExtension (NewHandshake (replicate 20 1) (replicate 20 2)) 3
       = NewHandshake (replicate 20 1) (replicate 20 2)"
  using C9_SetExtension_bits [of "NewHandshake (replicate 20 1) (replicate 20 2)"]
  by (simp add: NewHandshake_def ExtensionDHT_def ExtensionExtensions_def ExtensionFast_def)

section \<open>Properties of the compact peer list\<close>

definition peer_of_group :: "byte list \<Rightarrow> nat \<Rightarrow> Peer" where
  "peer_of_group s i =
     \<lparr>IP = IPv4 (s ! i) (s ! (i + 1)) (s ! (i + 2)) (s ! (i + 3)),
      Port = BigEndian_Uint16 (s ! (i + 4)) (s ! (i + 5))\<rparr>"

lemma parsePeers_loop_groups:
  "i \<le> length s \<Longrightarrow> (length s - i) mod 6 = 0 \<Longrightarrow>
   parsePeers_loop s i acc =
     Ok (acc @ map (\<lambda>k. peer_of_group s (i + 6 * k)) [0 ..< (length s - i) div 6])"
proof (induction s i acc rule: parsePeers_loop.induct)
  case (1 s i acc)
  show ?case
  proof (cases "i < length s")
    case False
    with "1.prems" show ?thesis by (simp add: parsePeers_loop.simps)
  next
    case True
    with "1.prems" have six: "i + 6 \<le> length s" by presburger
    then have five: "i + 5 < length s" by simp
    have m: "(length s - (i + 6)) mod 6 = 0" using "1.prems" six by presburger
    have "length s - i = (length s - (i + 6)) + 6" using six by simp
    then have d: "(length s - i) div 6 = Suc ((length s - (i + 6)) div 6)"
      by (simp only: div_add_self2)
    have shift: "map (\<lambda>k. peer_of_group s (i + 6 * k)) [0 ..< Suc n]
        = peer_of_group s i # map (\<lambda>k. peer_of_group s (i + 6 + 6 * k)) [0 ..< n]" for n
      by (simp add: map_upt_Suc add.assoc del: upt_Suc)
    have "parsePeers_loop s i acc = parsePeers_loop s (i + 6) (acc @ [peer_of_group s i])"
      using True five by (subst parsePeers_loop.simps) (simp add: peer_of_group_def)
    also have "\<dots> = Ok ((acc @ [peer_of_group s i]) @
         map (\<lambda>k. peer_of_group s (i + 6 + 6 * k)) [0 ..< (length s - (i + 6)) div 6])"
      using "1.IH" [OF True five six m] by (simp add: peer_of_group_def)
    finally show ?thesis unfolding d shift by simp
  qed
qed

text \<open>
  Claim C8. When the length of the byte string is a multiple of 6,
  \<open>parsePeers\<close> returns one peer per 6-byte group, in input order: the first
  four bytes of the group are the IPv4 address and the last two the big-endian
  port. The 12 bytes of the tracker test decode to 127.0.0.1:6881 and
  192.168.0.1:6881. Any other length gives the invalid-peer-list-length error.
\<close>

theorem C8_parsePeers:
  "(length s mod 6 = 0 \<longrightarrow>
      (\<exists>peers. parsePeers s = Ok peers \<and> length peers = length s div 6
         \<and> (\<forall>k < length s div 6.
              peers ! k = \<lparr>IP = IPv4 (s ! (6 * k)) (s ! (6 * k + 1)) (s ! (6 * k + 2)) (s ! (6 * k + 3)),
                           Port = BigEndian_Uint16 (s ! (6 * k + 4)) (s ! (6 * k + 5))\<rparr>)))
   \<and> (length s mod 6 \<noteq> 0 \<longrightarrow> parsePeers s = Err (InvalidPeerListLength (length s)))
   \<and> parsePeers [0x7f, 0, 0, 1, 0x1a, 0xe1, 0xc0, 0xa8, 0, 1, 0x1a, 0xe1]
       = Ok [\<lparr>IP = IPv4 127 0 0 1, Port = 6881\<rparr>, \<lparr>IP = IPv4 192 168 0 1, Port = 6881\<rparr>]"
proof (intro conjI impI)
  assume m: "length s mod 6 = 0"
  have "parsePeers s = Ok (map (\<lambda>k. peer_of_group s (6 * k)) [0 ..< length s div 6])"
    using m parsePeers_loop_groups [of 0 s "[]"] by (simp add: parsePeers_def)
  then show "\<exists>peers. parsePeers s = Ok peers \<and> length peers = length s div 6
         \<and> (\<forall>k < length s div 6.
              peers ! k = \<lparr>IP = IPv4 (s ! (6 * k)) (s ! (6 * k + 1)) (s ! (6 * k + 2)) (s ! (6 * k + 3)),
                           Port = BigEndian_Uint16 (s ! (6 * k + 4)) (s ! (6 * k + 5))\<rparr>)"
    by (simp add: peer_of_group_def)
next
  assume "length s mod 6 \<noteq> 0"
  then show "parsePeers s = Err (InvalidPeerListLength (length s))"
    by (simp add: parsePeers_def)
next
  show "parsePeers [0x7f, 0, 0, 1, 0x1a, 0xe1, 0xc0, 0xa8, 0, 1, 0x1a, 0xe1]
       = Ok [\<lparr>IP = IPv4 127 0 0 1, Port = 6881\<rparr>, \<lparr>IP = IPv4 192 168 0 1, Port = 6881\<rparr>]"
    by code_simp
qed

theorem C8_parsePeers_witness:
  "(\<exists>peers. parsePeers [10, 0, 0, 7, 0x1a, 0xe1] = Ok peers \<and> length peers = 1
       \<and> peers ! 0 = \<lparr>IP = IPv4 10 0 0 7, Port = BigEndian_Uint16 0x1a 0xe1\<rparr>)
   \<and> parsePeers [10, 0, 0, 7, 0x1a] = Err (InvalidPeerListLength 5)"
  using C8_parsePeers [of "[10, 0, 0, 7, 0x1a, 0xe1]"] C8_parsePeers [of "[10, 0, 0, 7, 0x1a]"]
  by simp

section \<open>Properties of the piece arithmetic\<close>

lemma go_rem_nonneg:
  assumes "0 \<le> sint a" "0 < sint b"
  shows "sint (go_rem a b) = sint a mod sint b"
proof -
  have eq: "sint a smod sint b = sint a mod sint b"
    using assms by (simp add: smod_int_alt_def sgn_if)
  have "0 \<le> sint a mod sint b" "sint a mod sint b < sint b"
    using assms by simp_all
  moreover have "sint b < 2 ^ 63"
    using sint_lt [of b] by simp
  ultimately have "signed_take_bit 63 (sint a mod sint b) = sint a mod sint b"
    by (intro signed_take_bit_int_eq_self) auto
  then show ?thesis
    by (simp add: go_rem_def eq sint_sbintrunc')
qed

text \<open>
  Claim C6, as the code has it. With a positive configured piece length,
  \<open>PieceLength\<close> returns 0 for an index that is negative or not below
  \<open>NumPieces\<close>, the configured piece length for every valid index before
  the last, and for the last index the remainder \<open>TotalLength % PieceLength\<close>
  of Go's truncated division when that is non-zero, else the configured piece
  length. That remainder is \<open>TotalLength mod PieceLength\<close> whenever the total
  length is not negative.
\<close>

theorem C6_PieceLength:
  assumes "0 <s Info_PieceLength (Info t)"
  shows "(index < 0 \<or> int (NumPieces t) \<le> index \<longrightarrow> PieceLength t index = Ok 0)
       \<and> (0 \<le> index \<and> index < int (NumPieces t) - 1 \<longrightarrow>
            PieceLength t index = Ok (Info_PieceLength (Info t)))
       \<and> (0 < NumPieces t \<and> index = int (NumPieces t) - 1 \<longrightarrow>
            PieceLength t index =
              Ok (if go_rem (TotalLength t) (Info_PieceLength (Info t)) = 0
                  then Info_PieceLength (Info t)
                  else go_rem (TotalLength t) (Info_PieceLength (Info t))))
       \<and> (0 \<le>s TotalLength t \<longrightarrow>
            sint (go_rem (TotalLength t) (Info_PieceLength (Info t)))
              = sint (TotalLength t) mod sint (Info_PieceLength (Info t)))"
proof -
  from assms have pos: "0 < sint (Info_PieceLength (Info t))"
    by (simp add: word_sless_alt)
  then have nz: "Info_PieceLength (Info t) \<noteq> 0" by auto
  have "0 \<le>s TotalLength t \<longrightarrow>
            sint (go_rem (TotalLength t) (Info_PieceLength (Info t)))
              = sint (TotalLength t) mod sint (Info_PieceLength (Info t))"
    using go_rem_nonneg [OF _ pos] by (simp add: word_sle_eq)
  then show ?thesis
    using nz by (auto simp: PieceLength_def Let_def)
qed

theorem C6_PieceLength_witness:
  "0 <s Info_PieceLength (Info (example_torrent (replicate 60 CHR ''a'') 10))
   \<and> PieceLength (example_torrent (replicate 60 CHR ''a'') 10) 3 = Ok 0
   \<and> PieceLength (example_torrent (replicate 60 CHR ''a'') 10) 1 = Ok 4
   \<and> PieceLength (example_torrent (replicate 60 CHR ''a'') 10) 2 = Ok 2"
proof -
  let ?t = "example_torrent (replicate 60 CHR ''a'') 10"
  have pos: "0 <s Info_PieceLength (Info ?t)"
    by (simp add: example_torrent_def word_sless_alt)
  have n: "NumPieces ?t = 3"
    by (simp add: example_torrent_def NumPieces_def)
  have r: "go_rem (TotalLength ?t) (Info_PieceLength (Info ?t)) = 2"
    by (simp add: example_torrent_def TotalLength_def go_rem_def smod_int_alt_def word_sless_alt)
  show ?thesis
    using pos C6_PieceLength [OF pos, of 3] C6_PieceLength [OF pos, of 1]
      C6_PieceLength [OF pos, of 2]
    by (simp add: n r) (simp add: example_torrent_def)
qed

text \<open>
  Claim C6 as stated fails when the total length is negative: with one file of
  length -1, piece length 4 and one piece, \<open>PieceLength 0\<close> is -1 (Go's
  remainder has the sign of the dividend), while \<open>TotalLength mod PieceLength\<close>
  is 3.
\<close>

theorem C6_PieceLength_negative_total_counterexample:
  "0 <s Info_PieceLength (Info (negative_length_torrent))
   \<and> NumPieces negative_length_torrent = 1
   \<and> sint (TotalLength negative_length_torrent) = - 1
   \<and> PieceLength negative_length_torrent 0 = Ok (- 1)
   \<and> sint (TotalLength negative_length_torrent)
         mod sint (Info_PieceLength (Info negative_length_torrent)) = 3"
  by (simp add: negative_length_torrent_def example_torrent_def NumPieces_def TotalLength_def
      PieceLength_def go_rem_def smod_int_alt_def word_sless_alt)

text \<open>
  Claim C7. When the length of the pieces string is not a multiple of 20,
  \<open>PieceHash\<close> fails with the corrupt-piece-list error whatever the index is.
  When it is a multiple of 20, an index that is negative or not below
  \<open>len(pieces) / 20\<close> gives the index-out-of-range error, and any other index
  gives the 20 bytes at offset \<open>index * 20\<close>.
\<close>

theorem C7_PieceHash:
  "(length (Info_Pieces (Info t)) mod 20 \<noteq> 0 \<longrightarrow> PieceHash t index = Err CorruptPieceList)
   \<and> (length (Info_Pieces (Info t)) mod 20 = 0 \<longrightarrow>
        (index < 0 \<or> index \<ge> int (length (Info_Pieces (Info t)) div 20) \<longrightarrow>
           PieceHash t index
             = Err (PieceIndexOutOfRange index (length (Info_Pieces (Info t)) div 20)))
      \<and> (0 \<le> index \<and> index < int (length (Info_Pieces (Info t)) div 20) \<longrightarrow>
           (\<exists>hash. PieceHash t index = Ok hash \<and> length hash = 20
              \<and> hash = map byte_of_char (take 20 (drop (nat index * 20) (Info_Pieces (Info t))))
              \<and> (\<forall>k < 20. hash ! k
                    = byte_of_char (Info_Pieces (Info t) ! (nat index * 20 + k))))))"
  by (auto simp: PieceHash_def Let_def)

theorem C7_PieceHash_witness:
  "PieceHash (example_torrent (replicate 7 CHR ''a'') 10) 0 = Err CorruptPieceList
   \<and> PieceHash (example_torrent (replicate 60 CHR ''a'') 10) 3 = Err (PieceIndexOutOfRange 3 3)
   \<and> (\<exists>hash. PieceHash (example_torrent (replicate 60 CHR ''a'') 10) 2 = Ok hash
          \<and> length hash = 20)"
  using C7_PieceHash [of "example_torrent (replicate 7 CHR ''a'') 10" 0]
    C7_PieceHash [of "example_torrent (replicate 60 CHR ''a'') 10" 3]
    C7_PieceHash [of "example_torrent (replicate 60 CHR ''a'') 10" 2]
  by (simp add: example_torrent_def)

section \<open>Properties of the info-hash\<close>

lemma dict_set_keys: "fst ` set (dict_set k v m) = insert k (fst ` set m)"
proof (induction m)
  case Nil
  show ?case by simp
next
  case (Cons kv m)
  obtain k' v' where kv: "kv = (k', v')" by (cases kv)
  show ?case using Cons.IH by (simp add: kv insert_commute)
qed

lemma dict_set_sorted:
  "sorted_wrt (<) (map fst m) \<Longrightarrow> sorted_wrt (<) (map fst (dict_set k v m))"
proof (induction m)
  case Nil
  show ?case by simp
next
  case (Cons kv m)
  obtain k' v' where kv: "kv = (k', v')" by (cases kv)
  from Cons.prems kv have later: "\<forall>x \<in> fst ` set m. k' < x" and srt: "sorted_wrt (<) (map fst m)"
    by simp_all
  show ?case
  proof (cases "k < k'")
    case True
    with later have "\<forall>x \<in> fst ` set m. k < x" by (meson less_trans)
    with True later srt show ?thesis by (simp add: kv)
  next
    case False
    show ?thesis
    proof (cases "k = k'")
      case True
      with later srt show ?thesis by (simp add: kv)
    next
      case neq: False
      with False have "k' < k" by simp
      with later have "\<forall>x \<in> fst ` set (dict_set k v m). k' < x"
        by (simp add: dict_set_keys)
      with False neq Cons.IH [OF srt] show ?thesis by (simp add: kv)
    qed
  qed
qed






lemma fileDict_sorted: "sorted_wrt (<) (map fst (fileDict file))"
  by (simp add: fileDict_def dict_set_sorted)












end
